theory Spec2Isabelle
  imports Main
begin

section \<open>Values, errors, promises\<close>

text \<open>
  The engine of \<^verbatim>\<open>src/index.js\<close> is one JavaScript class whose methods are
  \<^verbatim>\<open>async\<close> functions running on a single-threaded event loop. The embedding keeps
  the object's fields in a record, keeps every promise in an explicit promise store, and
  turns each \<^verbatim>\<open>await\<close> into a continuation that is parked on the awaited promise and
  resumed from the microtask queue.
\<close>

text \<open>
  Error objects: the \<^verbatim>\<open>Error('This Idbkv instance is closed')\<close> thrown by the engine,
  the \<^verbatim>\<open>TypeError\<close> of the JavaScript runtime, and the objects handed over by the
  store (\<^verbatim>\<open>request.error\<close>, \<^verbatim>\<open>transaction.error\<close>, event arguments), told
  apart by a number.
\<close>

datatype error = ClosedError | TypeError | StoreError nat

datatype 'v jsval = Undefined | Val 'v | DbHandle string | TimerId nat

datatype 'v pstate = Pending | Fulfilled "'v jsval" | Rejected error

type_synonym pid = nat

text \<open>
  A queued action (lines 52-57, 62-66, 71-74). A get carries its \<^verbatim>\<open>resolve\<close> and
  \<^verbatim>\<open>reject\<close> functions, which both belong to the promise created on line 51; a set and a
  delete carry neither.
\<close>

datatype ('k, 'v) action = AGet 'k pid | ASet 'k 'v | ADelete 'k

text \<open>The requests a transaction receives from lines 126, 131 and 134.\<close>

datatype ('k, 'v) request = RGet 'k pid | RPut 'k 'v | RDelete 'k

text \<open>
  A transaction opened on line 120, with the requests not yet answered and the three
  functions its handlers of lines 139-151 close over.
\<close>

record ('k, 'v) txn =
  tx_reqs :: "('k, 'v) request list"
  tx_resolveBatch :: pid
  tx_rejectBatch :: pid
  tx_resolve :: pid

text \<open>
  The points at which an \<^verbatim>\<open>async\<close> function is suspended, with the local variables
  that are live there.
\<close>

datatype ('k, 'v) cont =
    StartBatchTimer_db pid
  | Commit_db pid "('k, 'v) action list" pid pid
  | Close_batchTimer pid
  | Close_commit pid
  | Close_db pid
  | Destroy_close pid
  | Destroy_db pid

record ('k, 'v) idbkv =
  batchInterval :: nat
  db :: pid
  actions :: "('k, 'v) action list option"
  closed :: bool
  batchPromise :: pid
  resolveBatch :: pid
  rejectBatch :: pid
  batchTimer :: pid
  promises :: "pid \<Rightarrow> 'v pstate"
  nextp :: pid
  waiters :: "(pid \<times> ('k, 'v) cont) list"
  micro :: "(pid \<times> ('k, 'v) cont) list"
  intervals :: "(nat \<times> nat) list"
  next_timer :: nat
  idb_name :: string
  idb_exists :: bool
  idb_opening :: bool
  idb_conn_closed :: bool
  idb_data :: "'k \<rightharpoonup> 'v"
  idb_view :: "'k \<rightharpoonup> 'v"
  idb_txs :: "('k, 'v) txn list"
  idb_erasing :: "(string \<times> pid) list"

section \<open>Promises and await\<close>

definition new_promise :: "('k, 'v) idbkv \<Rightarrow> pid \<times> ('k, 'v) idbkv" where
  "new_promise s =
     (nextp s, s\<lparr>promises := (promises s)(nextp s := Pending), nextp := Suc (nextp s)\<rparr>)"

text \<open>
  Settling a promise that is already settled does nothing; settling a pending one queues
  the continuations parked on it, in the order in which they were parked.
\<close>

definition settle :: "pid \<Rightarrow> 'v pstate \<Rightarrow> ('k, 'v) idbkv \<Rightarrow> ('k, 'v) idbkv" where
  "settle p r s =
     (if promises s p = Pending
      then s\<lparr>promises := (promises s)(p := r),
             micro := micro s @ filter (\<lambda>w. fst w = p) (waiters s),
             waiters := filter (\<lambda>w. fst w \<noteq> p) (waiters s)\<rparr>
      else s)"

definition resolve :: "pid \<Rightarrow> 'v jsval \<Rightarrow> ('k, 'v) idbkv \<Rightarrow> ('k, 'v) idbkv" where
  "resolve p v s = settle p (Fulfilled v) s"

definition reject :: "pid \<Rightarrow> error \<Rightarrow> ('k, 'v) idbkv \<Rightarrow> ('k, 'v) idbkv" where
  "reject p e s = settle p (Rejected e) s"

definition await :: "pid \<Rightarrow> ('k, 'v) cont \<Rightarrow> ('k, 'v) idbkv \<Rightarrow> ('k, 'v) idbkv" where
  "await p k s =
     (if promises s p = Pending
      then s\<lparr>waiters := waiters s @ [(p, k)]\<rparr>
      else s\<lparr>micro := micro s @ [(p, k)]\<rparr>)"

section \<open>The engine\<close>

subsection \<open>\<^verbatim>\<open>_commit\<close> (lines 107-152)\<close>

text \<open>
  Up to its first \<^verbatim>\<open>await\<close> (line 120) the function runs inside the caller. Reading
  \<^verbatim>\<open>.length\<close> of \<^verbatim>\<open>null\<close> throws, which rejects the promise of the call.
\<close>

definition commit :: "('k, 'v) idbkv \<Rightarrow> pid \<times> ('k, 'v) idbkv" where
  "commit s0 =
     (let (cp, s) = new_promise s0 in
      case actions s of
        None \<Rightarrow> (cp, reject cp TypeError s)
      | Some [] \<Rightarrow> (cp, resolve cp Undefined s)
      | Some (a # as) \<Rightarrow>
          (let commitedActions = a # as;
               s1 = s\<lparr>actions := Some []\<rparr>;
               resolveBatch' = resolveBatch s1;
               rejectBatch' = rejectBatch s1;
               (bp, s2) = new_promise s1;
               s3 = s2\<lparr>batchPromise := bp, resolveBatch := bp, rejectBatch := bp\<rparr>
           in (cp, await (db s3) (Commit_db cp commitedActions resolveBatch' rejectBatch') s3)))"

text \<open>The loop of lines 123-137: one request per action, in the order of the list.\<close>

fun issue_requests :: "('k, 'v) action list \<Rightarrow> ('k, 'v) request list" where
  "issue_requests [] = []"
| "issue_requests (AGet k p # as) = RGet k p # issue_requests as"
| "issue_requests (ASet k v # as) = RPut k v # issue_requests as"
| "issue_requests (ADelete k # as) = RDelete k # issue_requests as"

text \<open>
  Lines 120-151, after \<^verbatim>\<open>await this.db\<close>. The store's \<^verbatim>\<open>transaction\<close> call is taken
  to succeed, as the store interface of the specification gives it no error result.
\<close>

definition commit_db ::
  "pid \<Rightarrow> ('k, 'v) action list \<Rightarrow> pid \<Rightarrow> pid \<Rightarrow> 'v pstate \<Rightarrow> ('k, 'v) idbkv \<Rightarrow> ('k, 'v) idbkv"
where
  "commit_db cp commitedActions resolveBatch' rejectBatch' r s =
     (case r of
        Pending \<Rightarrow> s
      | Rejected e \<Rightarrow> reject cp e s
      | Fulfilled h \<Rightarrow>
          s\<lparr>idb_txs := idb_txs s @
               [\<lparr>tx_reqs = issue_requests commitedActions,
                 tx_resolveBatch = resolveBatch',
                 tx_rejectBatch = rejectBatch',
                 tx_resolve = cp\<rparr>]\<rparr>)"

text \<open>\<^verbatim>\<open>transaction.oncomplete\<close> (lines 140-143).\<close>

definition tx_oncomplete :: "('k, 'v) txn \<Rightarrow> ('k, 'v) idbkv \<Rightarrow> ('k, 'v) idbkv" where
  "tx_oncomplete t s = resolve (tx_resolve t) Undefined (resolve (tx_resolveBatch t) Undefined s)"

text \<open>
  \<^verbatim>\<open>transaction.onerror = transaction.onabort\<close> (lines 145-150); \<open>te\<close> is
  \<^verbatim>\<open>transaction.error\<close> (\<open>None\<close> for \<^verbatim>\<open>null\<close>) and \<open>arg\<close> the handler's argument.
\<close>

definition tx_onfail :: "('k, 'v) txn \<Rightarrow> error option \<Rightarrow> error \<Rightarrow> ('k, 'v) idbkv \<Rightarrow> ('k, 'v) idbkv" where
  "tx_onfail t te arg s =
     resolve (tx_resolve t) Undefined
       (reject (tx_rejectBatch t) (case te of Some e \<Rightarrow> e | None \<Rightarrow> arg) s)"

subsection \<open>\<^verbatim>\<open>_startBatchTimer\<close> (lines 98-105)\<close>

definition startBatchTimer :: "('k, 'v) idbkv \<Rightarrow> pid \<times> ('k, 'v) idbkv" where
  "startBatchTimer s0 =
     (let (tp, s) = new_promise s0 in (tp, await (db s) (StartBatchTimer_db tp) s))"

definition setInterval :: "nat \<Rightarrow> ('k, 'v) idbkv \<Rightarrow> nat \<times> ('k, 'v) idbkv" where
  "setInterval delay s =
     (next_timer s,
      s\<lparr>intervals := intervals s @ [(next_timer s, delay)], next_timer := Suc (next_timer s)\<rparr>)"

definition clearInterval :: "'v jsval \<Rightarrow> ('k, 'v) idbkv \<Rightarrow> ('k, 'v) idbkv" where
  "clearInterval v s =
     (case v of
        TimerId t \<Rightarrow> s\<lparr>intervals := filter (\<lambda>i. fst i \<noteq> t) (intervals s)\<rparr>
      | _ \<Rightarrow> s)"

definition startBatchTimer_db :: "pid \<Rightarrow> 'v pstate \<Rightarrow> ('k, 'v) idbkv \<Rightarrow> ('k, 'v) idbkv" where
  "startBatchTimer_db tp r s =
     (case r of
        Pending \<Rightarrow> s
      | Rejected e \<Rightarrow> reject tp e s
      | Fulfilled h \<Rightarrow>
          (let (cp, s1) = commit s;
               (t, s2) = setInterval (batchInterval s1) s1
           in resolve tp (TimerId t) s2))"

subsection \<open>The constructor (lines 2-48)\<close>

text \<open>
  \<open>opt\<close> is the \<^verbatim>\<open>batchInterval\<close> option (\<open>None\<close> when it is not given) and
  \<open>existing\<close> the contents of the database the name refers to (\<open>None\<close> when there is
  none yet). The open request is answered later, by one of the events below.
\<close>

definition constructor :: "string \<Rightarrow> nat option \<Rightarrow> ('k \<rightharpoonup> 'v) option \<Rightarrow> ('k, 'v) idbkv" where
  "constructor dbName opt existing =
     (let s0 = \<lparr>batchInterval = (case opt of None \<Rightarrow> 10 | Some n \<Rightarrow> n),
                db = 0,
                actions = Some [],
                closed = False,
                batchPromise = 1, resolveBatch = 1, rejectBatch = 1,
                batchTimer = 2,
                promises = (\<lambda>p. Pending),
                nextp = 2,
                waiters = [], micro = [],
                intervals = [], next_timer = 0,
                idb_name = dbName,
                idb_exists = (existing \<noteq> None),
                idb_opening = True,
                idb_conn_closed = False,
                idb_data = (case existing of None \<Rightarrow> Map.empty | Some m \<Rightarrow> m),
                idb_view = (case existing of None \<Rightarrow> Map.empty | Some m \<Rightarrow> m),
                idb_txs = [],
                idb_erasing = []\<rparr>;
          (tp, s1) = startBatchTimer s0
      in s1\<lparr>batchTimer := tp\<rparr>)"

text \<open>The loop of line 15: only a get has a \<^verbatim>\<open>reject\<close> function.\<close>

fun reject_actions :: "error \<Rightarrow> ('k, 'v) action list \<Rightarrow> ('k, 'v) idbkv \<Rightarrow> ('k, 'v) idbkv" where
  "reject_actions e [] s = s"
| "reject_actions e (AGet k p # as) s = reject_actions e as (reject p e s)"
| "reject_actions e (ASet k v # as) s = reject_actions e as s"
| "reject_actions e (ADelete k # as) s = reject_actions e as s"

text \<open>\<^verbatim>\<open>request.onerror\<close> of the open request (lines 11-21).\<close>

definition open_onerror :: "error \<Rightarrow> ('k, 'v) idbkv \<Rightarrow> ('k, 'v) idbkv" where
  "open_onerror e s0 =
     (let s = s0\<lparr>closed := True\<rparr> in
      case actions s of
        None \<Rightarrow> s
      | Some as \<Rightarrow>
          (let s1 = reject_actions e as s;
               s2 = reject (rejectBatch s1) e s1;
               s3 = s2\<lparr>actions := None\<rparr>
           in reject (db s3) e s3))"

text \<open>\<^verbatim>\<open>request.onsuccess\<close> of the open request (line 10).\<close>

definition open_onsuccess :: "('k, 'v) idbkv \<Rightarrow> ('k, 'v) idbkv" where
  "open_onsuccess s = resolve (db s) (DbHandle (idb_name s)) s"

subsection \<open>\<^verbatim>\<open>get\<close>, \<^verbatim>\<open>set\<close>, \<^verbatim>\<open>delete\<close> (lines 49-76)\<close>

text \<open>
  An \<^verbatim>\<open>async\<close> function that throws returns a promise that is rejected already; one
  that returns a promise returns a promise with the same outcome, and the model hands back
  that promise itself.
\<close>

definition throw :: "error \<Rightarrow> ('k, 'v) idbkv \<Rightarrow> pid \<times> ('k, 'v) idbkv" where
  "throw e s0 = (let (p, s) = new_promise s0 in (p, reject p e s))"

definition push :: "('k, 'v) action \<Rightarrow> ('k, 'v) idbkv \<Rightarrow> ('k, 'v) idbkv" where
  "push a s = (case actions s of None \<Rightarrow> s | Some as \<Rightarrow> s\<lparr>actions := Some (as @ [a])\<rparr>)"

definition get_call :: "'k \<Rightarrow> ('k, 'v) idbkv \<Rightarrow> pid \<times> ('k, 'v) idbkv" where
  "get_call key s =
     (if closed s then throw ClosedError s
      else (let (p, s1) = new_promise s in (p, push (AGet key p) s1)))"

definition set_call :: "'k \<Rightarrow> 'v \<Rightarrow> ('k, 'v) idbkv \<Rightarrow> pid \<times> ('k, 'v) idbkv" where
  "set_call key val s =
     (if closed s then throw ClosedError s
      else (let s1 = push (ASet key val) s in (batchPromise s1, s1)))"

definition delete_call :: "'k \<Rightarrow> ('k, 'v) idbkv \<Rightarrow> pid \<times> ('k, 'v) idbkv" where
  "delete_call key s =
     (if closed s then throw ClosedError s
      else (let s1 = push (ADelete key) s in (batchPromise s1, s1)))"

subsection \<open>\<^verbatim>\<open>close\<close> (lines 77-87) and \<^verbatim>\<open>destroy\<close> (lines 88-97)\<close>

definition close_call :: "('k, 'v) idbkv \<Rightarrow> pid \<times> ('k, 'v) idbkv" where
  "close_call s0 =
     (let (clp, s) = new_promise s0;
          s1 = s\<lparr>closed := True\<rparr>
      in (clp, await (batchTimer s1) (Close_batchTimer clp) s1))"

definition close_batchTimer :: "pid \<Rightarrow> 'v pstate \<Rightarrow> ('k, 'v) idbkv \<Rightarrow> ('k, 'v) idbkv" where
  "close_batchTimer clp r s =
     (case r of
        Pending \<Rightarrow> s
      | Rejected e \<Rightarrow> reject clp e s
      | Fulfilled t \<Rightarrow>
          (let s1 = clearInterval t s;
               (cp, s2) = commit s1
           in await cp (Close_commit clp) s2))"

definition close_commit :: "pid \<Rightarrow> 'v pstate \<Rightarrow> ('k, 'v) idbkv \<Rightarrow> ('k, 'v) idbkv" where
  "close_commit clp r s =
     (case r of
        Pending \<Rightarrow> s
      | Rejected e \<Rightarrow> reject clp e s
      | Fulfilled u \<Rightarrow> await (db s) (Close_db clp) s)"

definition close_db :: "pid \<Rightarrow> 'v pstate \<Rightarrow> ('k, 'v) idbkv \<Rightarrow> ('k, 'v) idbkv" where
  "close_db clp r s =
     (case r of
        Pending \<Rightarrow> s
      | Rejected e \<Rightarrow> reject clp e s
      | Fulfilled h \<Rightarrow> resolve clp Undefined (s\<lparr>idb_conn_closed := True\<rparr>))"

definition destroy_call :: "('k, 'v) idbkv \<Rightarrow> pid \<times> ('k, 'v) idbkv" where
  "destroy_call s0 =
     (let (dp, s) = new_promise s0;
          (clp, s1) = close_call s
      in (dp, await clp (Destroy_close dp) s1))"

definition destroy_close :: "pid \<Rightarrow> 'v pstate \<Rightarrow> ('k, 'v) idbkv \<Rightarrow> ('k, 'v) idbkv" where
  "destroy_close dp r s =
     (case r of
        Pending \<Rightarrow> s
      | Rejected e \<Rightarrow> reject dp e s
      | Fulfilled u \<Rightarrow> await (db s) (Destroy_db dp) s)"

text \<open>
  Line 92 reads \<^verbatim>\<open>.name\<close> of the awaited handle and asks the store to delete the database of
  that name; lines 93-96 tie the promise of the call to the answer.
\<close>

definition destroy_db :: "pid \<Rightarrow> 'v pstate \<Rightarrow> ('k, 'v) idbkv \<Rightarrow> ('k, 'v) idbkv" where
  "destroy_db dp r s =
     (case r of
        Pending \<Rightarrow> s
      | Rejected e \<Rightarrow> reject dp e s
      | Fulfilled h \<Rightarrow>
          (case h of
             DbHandle name \<Rightarrow> s\<lparr>idb_erasing := idb_erasing s @ [(name, dp)]\<rparr>
           | _ \<Rightarrow> reject dp TypeError s))"

section \<open>The event loop\<close>

fun resume :: "('k, 'v) cont \<Rightarrow> 'v pstate \<Rightarrow> ('k, 'v) idbkv \<Rightarrow> ('k, 'v) idbkv" where
  "resume (StartBatchTimer_db tp) r s = startBatchTimer_db tp r s"
| "resume (Commit_db cp as rb jb) r s = commit_db cp as rb jb r s"
| "resume (Close_batchTimer clp) r s = close_batchTimer clp r s"
| "resume (Close_commit clp) r s = close_commit clp r s"
| "resume (Close_db clp) r s = close_db clp r s"
| "resume (Destroy_close dp) r s = destroy_close dp r s"
| "resume (Destroy_db dp) r s = destroy_db dp r s"

text \<open>
  What a continuation can still park or queue: the measure under which the microtask
  queue runs dry.
\<close>

fun rank :: "('k, 'v) cont \<Rightarrow> nat" where
  "rank (StartBatchTimer_db tp) = 2"
| "rank (Commit_db cp as rb jb) = 1"
| "rank (Close_batchTimer clp) = 4"
| "rank (Close_commit clp) = 2"
| "rank (Close_db clp) = 1"
| "rank (Destroy_close dp) = 2"
| "rank (Destroy_db dp) = 1"

definition load :: "('k, 'v) idbkv \<Rightarrow> nat" where
  "load s = sum_list (map (\<lambda>w. rank (snd w)) (micro s)) + sum_list (map (\<lambda>w. rank (snd w)) (waiters s))"

lemma sum_list_filter_split:
  "sum_list (map f (filter P xs)) + sum_list (map f (filter (\<lambda>x. \<not> P x) xs)) = sum_list (map (f :: 'a \<Rightarrow> nat) xs)"
  by (induction xs) auto

lemma load_same: "micro s' = micro s \<Longrightarrow> waiters s' = waiters s \<Longrightarrow> load s' = load s"
  by (simp add: load_def)

lemma load_new_promise [simp]: "load (snd (new_promise s)) = load s"
  by (simp add: new_promise_def load_def)

lemma load_settle [simp]: "load (settle p r s) = load s"
  using sum_list_filter_split [of "\<lambda>w. rank (snd w)" "\<lambda>w. fst w = p" "waiters s"]
  by (simp add: settle_def load_def)

lemma load_resolve [simp]: "load (resolve p v s) = load s"
  by (simp add: resolve_def)

lemma load_reject [simp]: "load (reject p e s) = load s"
  by (simp add: reject_def)

lemma load_await [simp]: "load (await p k s) = load s + rank k"
  by (simp add: await_def load_def)

lemma load_commit: "load (snd (commit s)) \<le> load s + 1"
proof -
  obtain cp s1 where np: "new_promise s = (cp, s1)" by (cases "new_promise s")
  then have l1: "load s1 = load s" using load_new_promise [of s] by simp
  show ?thesis
  proof (cases "actions s1")
    case None
    then show ?thesis using np l1 by (simp add: commit_def)
  next
    case (Some as)
    show ?thesis
    proof (cases as)
      case Nil
      then show ?thesis using np l1 Some by (simp add: commit_def)
    next
      case (Cons a as')
      obtain bp s2 where np2: "new_promise (s1\<lparr>actions := Some []\<rparr>) = (bp, s2)"
        by (cases "new_promise (s1\<lparr>actions := Some []\<rparr>)")
      have "load s2 = load (s1\<lparr>actions := Some []\<rparr>)"
        using load_new_promise [of "s1\<lparr>actions := Some []\<rparr>"] np2 by simp
      also have "\<dots> = load s1" by (rule load_same) simp_all
      finally have l2: "load s2 = load s" using l1 by simp
      have l3: "load (s2\<lparr>batchPromise := bp, resolveBatch := bp, rejectBatch := bp\<rparr>) = load s2"
        by (rule load_same) simp_all
      show ?thesis using np Some Cons np2 l2 l3
        by (simp add: commit_def)
    qed
  qed
qed

lemma load_clearInterval [simp]: "load (clearInterval v s) = load s"
  by (cases v) (simp_all add: clearInterval_def load_def)

lemma load_resume: "load (resume k r s) < load s + rank k"
proof (cases k)
  case (StartBatchTimer_db tp)
  obtain cp s1 where c: "commit s = (cp, s1)" by (cases "commit s")
  then have "load s1 \<le> load s + 1" using load_commit [of s] by simp
  moreover have "load s2 = load s1" if "setInterval d s1 = (t, s2)" for d t s2
    using that by (auto simp: setInterval_def intro: load_same)
  ultimately show ?thesis using StartBatchTimer_db c
    by (cases r) (auto simp: startBatchTimer_db_def split: prod.split)
next
  case (Commit_db cp as rb jb)
  have "load (s\<lparr>idb_txs := x\<rparr>) = load s" for x by (rule load_same) simp_all
  then show ?thesis using Commit_db by (cases r) (simp_all add: commit_db_def)
next
  case (Close_batchTimer clp)
  have "load s' \<le> load s + 1" if "commit (clearInterval v s) = (cp, s')" for v cp s'
    using load_commit [of "clearInterval v s"] that by simp
  then show ?thesis using Close_batchTimer
    by (cases r) (fastforce simp: close_batchTimer_def split: prod.split)+
next
  case (Close_commit clp)
  then show ?thesis by (cases r) (simp_all add: close_commit_def)
next
  case (Close_db clp)
  have "load (s\<lparr>idb_conn_closed := x\<rparr>) = load s" for x by (rule load_same) simp_all
  then show ?thesis using Close_db by (cases r) (simp_all add: close_db_def)
next
  case (Destroy_close dp)
  then show ?thesis by (cases r) (simp_all add: destroy_close_def)
next
  case (Destroy_db dp)
  have "load (s\<lparr>idb_erasing := x\<rparr>) = load s" for x by (rule load_same) simp_all
  then show ?thesis using Destroy_db
    by (cases r) (simp_all add: destroy_db_def split: jsval.split)
qed

function run_micro :: "('k, 'v) idbkv \<Rightarrow> ('k, 'v) idbkv" where
  "run_micro s =
     (case micro s of
        [] \<Rightarrow> s
      | w # ws \<Rightarrow> run_micro (resume (snd w) (promises s (fst w)) (s\<lparr>micro := ws\<rparr>)))"
  by pat_completeness auto
termination
proof (relation "measure load")
  show "wf (measure load)" by simp
next
  fix s :: "('k, 'v) idbkv" and w ws
  assume m: "micro s = w # ws"
  have "load (resume (snd w) (promises s (fst w)) (s\<lparr>micro := ws\<rparr>)) < load (s\<lparr>micro := ws\<rparr>) + rank (snd w)"
    by (rule load_resume)
  also have "load (s\<lparr>micro := ws\<rparr>) + rank (snd w) = load s"
    using m by (simp add: load_def)
  finally show "(resume (snd w) (promises s (fst w)) (s\<lparr>micro := ws\<rparr>), s) \<in> measure load"
    by simp
qed


declare run_micro.simps [simp del]

subsection \<open>Tasks\<close>

text \<open>
  The calls a user of the engine can make. The calls of one task run one after the other
  with no microtask in between.
\<close>

datatype ('k, 'v) call = CGet 'k | CSet 'k 'v | CDelete 'k | CClose | CDestroy

fun do_call :: "('k, 'v) call \<Rightarrow> ('k, 'v) idbkv \<Rightarrow> ('k, 'v) idbkv" where
  "do_call (CGet k) s = snd (get_call k s)"
| "do_call (CSet k v) s = snd (set_call k v s)"
| "do_call (CDelete k) s = snd (delete_call k s)"
| "do_call CClose s = snd (close_call s)"
| "do_call CDestroy s = snd (destroy_call s)"

text \<open>
  What the store and the timer do to the engine. The store answers the requests of the
  oldest open transaction in the order in which they were made, against a working copy of
  the data that is installed when the transaction completes and dropped when it aborts.
\<close>

datatype ('k, 'v) event =
    Calls "('k, 'v) call list"
  | UpgradeNeeded
  | OpenSuccess
  | OpenError error
  | Tick nat
  | ReqSuccess
  | ReqError error
  | TxComplete
  | TxError "error option" error
  | TxAbort "error option" error
  | EraseSuccess
  | EraseError error

text \<open>\<^verbatim>\<open>request.onsuccess\<close> of a get (line 127); a put and a delete have no handler.\<close>

definition request_onsuccess :: "('k, 'v) request \<Rightarrow> ('k, 'v) idbkv \<Rightarrow> ('k, 'v) idbkv" where
  "request_onsuccess rq s =
     (case rq of
        RGet k p \<Rightarrow> resolve p (case idb_view s k of None \<Rightarrow> Undefined | Some v \<Rightarrow> Val v) s
      | RPut k v \<Rightarrow> s\<lparr>idb_view := (idb_view s)(k \<mapsto> v)\<rparr>
      | RDelete k \<Rightarrow> s\<lparr>idb_view := (idb_view s)(k := None)\<rparr>)"

text \<open>\<^verbatim>\<open>request.onerror\<close> of a get (line 128).\<close>

definition request_onerror :: "error \<Rightarrow> ('k, 'v) request \<Rightarrow> ('k, 'v) idbkv \<Rightarrow> ('k, 'v) idbkv" where
  "request_onerror e rq s = (case rq of RGet k p \<Rightarrow> reject p e s | _ \<Rightarrow> s)"

fun handle :: "('k, 'v) event \<Rightarrow> ('k, 'v) idbkv \<Rightarrow> ('k, 'v) idbkv" where
  "handle (Calls cs) s = fold do_call cs s"
| "handle UpgradeNeeded s =
     (if idb_opening s \<and> \<not> idb_exists s then s\<lparr>idb_exists := True\<rparr> else s)"
| "handle OpenSuccess s =
     (if idb_opening s \<and> idb_exists s then open_onsuccess (s\<lparr>idb_opening := False\<rparr>) else s)"
| "handle (OpenError e) s =
     (if idb_opening s then open_onerror e (s\<lparr>idb_opening := False\<rparr>) else s)"
| "handle (Tick t) s =
     (if t \<in> fst ` set (intervals s) then snd (commit s) else s)"
| "handle ReqSuccess s =
     (case idb_txs s of
        [] \<Rightarrow> s
      | t # ts \<Rightarrow>
          (case tx_reqs t of
             [] \<Rightarrow> s
           | rq # rqs \<Rightarrow> request_onsuccess rq (s\<lparr>idb_txs := t\<lparr>tx_reqs := rqs\<rparr> # ts\<rparr>)))"
| "handle (ReqError e) s =
     (case idb_txs s of
        [] \<Rightarrow> s
      | t # ts \<Rightarrow>
          (case tx_reqs t of
             [] \<Rightarrow> s
           | rq # rqs \<Rightarrow> request_onerror e rq (s\<lparr>idb_txs := t\<lparr>tx_reqs := rqs\<rparr> # ts\<rparr>)))"
| "handle TxComplete s =
     (case idb_txs s of
        [] \<Rightarrow> s
      | t # ts \<Rightarrow>
          (if tx_reqs t = []
           then tx_oncomplete t (s\<lparr>idb_txs := ts, idb_data := idb_view s\<rparr>)
           else s))"
| "handle (TxError te arg) s =
     (case idb_txs s of
        [] \<Rightarrow> s
      | t # ts \<Rightarrow> tx_onfail t te arg s)"
| "handle (TxAbort te arg) s =
     (case idb_txs s of
        [] \<Rightarrow> s
      | t # ts \<Rightarrow>
          (if tx_reqs t = []
           then tx_onfail t te arg (s\<lparr>idb_txs := ts, idb_view := idb_data s\<rparr>)
           else s))"
| "handle EraseSuccess s =
     (case idb_erasing s of
        [] \<Rightarrow> s
      | r # rs \<Rightarrow>
          (if idb_conn_closed s \<and> idb_txs s = []
           then resolve (snd r) Undefined
                  (if fst r = idb_name s
                   then s\<lparr>idb_erasing := rs, idb_exists := False,
                          idb_data := Map.empty, idb_view := Map.empty\<rparr>
                   else s\<lparr>idb_erasing := rs\<rparr>)
           else s))"
| "handle (EraseError e) s =
     (case idb_erasing s of
        [] \<Rightarrow> s
      | r # rs \<Rightarrow> reject (snd r) e (s\<lparr>idb_erasing := rs\<rparr>))"

text \<open>One task: the handler, then the microtasks it left behind.\<close>

definition step :: "('k, 'v) event \<Rightarrow> ('k, 'v) idbkv \<Rightarrow> ('k, 'v) idbkv" where
  "step e s = run_micro (handle e s)"

definition run :: "('k, 'v) event list \<Rightarrow> ('k, 'v) idbkv \<Rightarrow> ('k, 'v) idbkv" where
  "run es s = fold step es s"

section \<open>Example runs\<close>

text \<open>
  An engine on an existing, empty database with \<^verbatim>\<open>batchInterval = 10\<close>, keys that are
  strings and values that are numbers; then the same engine after the store has opened,
  with actions queued, with a batch in its transaction, and after the store has failed to
  open.
\<close>

definition ex_new :: "(string, nat) idbkv" where
  "ex_new = constructor ''kv'' (Some 10) (Some Map.empty)"

definition ex_ready :: "(string, nat) idbkv" where
  "ex_ready = run [OpenSuccess] ex_new"

definition ex_queued :: "(string, nat) idbkv" where
  "ex_queued = run [OpenSuccess, Calls [CSet ''a'' 1, CGet ''a'']] ex_new"

definition ex_batch :: "(string, nat) idbkv" where
  "ex_batch = run [Calls [CSet ''a'' 1, CSet ''a'' 2, CGet ''a''], OpenSuccess] ex_new"

definition ex_answered :: "(string, nat) idbkv" where
  "ex_answered = run [ReqSuccess, ReqSuccess, ReqSuccess] ex_batch"

definition ex_pending :: "(string, nat) idbkv" where
  "ex_pending = run [Calls [CSet ''a'' 1, CGet ''a'']] ex_new"

definition ex_failed :: "(string, nat) idbkv" where
  "ex_failed = run [OpenError (StoreError 7)] ex_pending"

definition ex_closed :: "(string, nat) idbkv" where
  "ex_closed = run [Calls [CClose]] ex_ready"

text \<open>
  Two more runs: a set drained by the interval's commit, its transaction still open; and a
  set, a get and a close in one task, after which the put fails and the error event reaches
  the transaction before the get is answered.
\<close>

definition ex_inflight :: "(string, nat) idbkv" where
  "ex_inflight = run [OpenSuccess, Calls [CSet ''a'' 1], Tick 0] ex_new"

definition ex_bubbled :: "(string, nat) idbkv" where
  "ex_bubbled = run [Calls [CSet ''a'' 1, CGet ''b'', CClose], ReqError (StoreError 9),
     TxError None (StoreError 9)] ex_ready"

text \<open>
  A call of \<^verbatim>\<open>destroy\<close> with a set and a get in the queue, after the final transaction has
  completed.
\<close>

definition ex_destroying :: "(string, nat) idbkv" where
  "ex_destroying = run [Calls [CDestroy], ReqSuccess, ReqSuccess, TxComplete] ex_queued"

section \<open>Notions used in the statements\<close>

text \<open>The promises of the gets of a batch, in queue order.\<close>

fun get_promises :: "('k, 'v) action list \<Rightarrow> pid list" where
  "get_promises [] = []"
| "get_promises (AGet k p # as) = p # get_promises as"
| "get_promises (ASet k v # as) = get_promises as"
| "get_promises (ADelete k # as) = get_promises as"



text \<open>
  Every promise that is awaited or held in a field has been allocated, and the two
  functions of the batch promise belong to the batch promise.
\<close>

definition wf :: "('k, 'v) idbkv \<Rightarrow> bool" where
  "wf s \<longleftrightarrow>
     (\<forall>w\<in>set (waiters s). fst w < nextp s) \<and> (\<forall>w\<in>set (micro s). fst w < nextp s)
   \<and> db s < nextp s \<and> batchTimer s < nextp s \<and> batchPromise s < nextp s
   \<and> resolveBatch s = batchPromise s \<and> rejectBatch s = batchPromise s"

text \<open>What no later step of the engine undoes.\<close>

definition keeps :: "('k, 'v) idbkv \<Rightarrow> ('k, 'v) idbkv \<Rightarrow> bool" where
  "keeps s s' \<longleftrightarrow>
     closed s' = closed s \<and> nextp s \<le> nextp s'
   \<and> db s' = db s \<and> batchTimer s' = batchTimer s \<and> batchInterval s' = batchInterval s
   \<and> idb_name s' = idb_name s \<and> idb_exists s' = idb_exists s \<and> idb_data s' = idb_data s
   \<and> idb_view s' = idb_view s \<and> idb_opening s' = idb_opening s
   \<and> (idb_conn_closed s \<longrightarrow> idb_conn_closed s')
   \<and> (\<forall>p. p < nextp s \<longrightarrow> promises s p \<noteq> Pending \<longrightarrow> promises s' p = promises s p)"

text \<open>
  The engine between its construction and the answer to its open request: nothing but the
  scheduler is parked on the connection promise, no continuation is parked on the batch
  promise or on the promise of a queued get, and these promises are pending.
\<close>

definition connecting :: "('k, 'v) idbkv \<Rightarrow> bool" where
  "connecting s \<longleftrightarrow>
     wf s \<and> micro s = [] \<and> idb_opening s
   \<and> intervals s = [] \<and> idb_txs s = [] \<and> idb_erasing s = []
   \<and> promises s (db s) = Pending \<and> promises s (batchTimer s) = Pending
   \<and> promises s (batchPromise s) = Pending
   \<and> db s \<noteq> batchTimer s \<and> batchPromise s \<noteq> db s \<and> batchPromise s \<noteq> batchTimer s
   \<and> filter (\<lambda>w. fst w = db s) (waiters s) = [(db s, StartBatchTimer_db (batchTimer s))]
   \<and> (\<forall>w\<in>set (waiters s). fst w \<noteq> batchPromise s)
   \<and> (\<not> closed s \<longrightarrow> waiters s = [(db s, StartBatchTimer_db (batchTimer s))])
   \<and> (case actions s of
         None \<Rightarrow> False
       | Some as \<Rightarrow>
           (\<forall>p\<in>set (get_promises as). p < nextp s \<and> p \<noteq> db s \<and> p \<noteq> batchTimer s
              \<and> promises s p = Pending
              \<and> (\<forall>w\<in>set (waiters s). fst w \<noteq> p)))"

text \<open>What no later task of the engine undoes.\<close>

definition stable :: "('k, 'v) idbkv \<Rightarrow> ('k, 'v) idbkv \<Rightarrow> bool" where
  "stable s s' \<longleftrightarrow>
     nextp s \<le> nextp s' \<and> db s' = db s \<and> batchTimer s' = batchTimer s
   \<and> batchInterval s' = batchInterval s
   \<and> (closed s \<longrightarrow> closed s') \<and> (idb_conn_closed s \<longrightarrow> idb_conn_closed s')
   \<and> (\<forall>p. p < nextp s \<longrightarrow> promises s p \<noteq> Pending \<longrightarrow> promises s' p = promises s p)"

text \<open>
  The continuations that exist, queued or parked; and the invariant by which the scheduler
  is started by nothing but a fulfilled connection promise.
\<close>

definition tasks :: "('k, 'v) idbkv \<Rightarrow> (pid \<times> ('k, 'v) cont) set" where
  "tasks s = set (micro s) \<union> set (waiters s)"

fun timer_start :: "('k, 'v) cont \<Rightarrow> bool" where
  "timer_start (StartBatchTimer_db tp) = True"
| "timer_start k = False"

definition scheduler_ok :: "('k, 'v) idbkv \<Rightarrow> bool" where
  "scheduler_ok s \<longleftrightarrow>
     wf s
   \<and> (\<forall>p k. (p, k) \<in> tasks s \<longrightarrow> timer_start k \<longrightarrow> p = db s)
   \<and> (intervals s \<noteq> [] \<longrightarrow> (\<exists>h. promises s (db s) = Fulfilled h))"








section \<open>Basic facts\<close>

lemma run_micro_Nil: "micro s = [] \<Longrightarrow> run_micro s = s"
  by (simp add: run_micro.simps)

lemma run_micro_Cons:
  "micro s = w # ws \<Longrightarrow>
   run_micro s = run_micro (resume (snd w) (promises s (fst w)) (s\<lparr>micro := ws\<rparr>))"
  by (simp add: run_micro.simps)

lemma micro_run_micro [simp]: "micro (run_micro s) = []"
proof (induction s rule: run_micro.induct)
  case (1 s)
  then show ?case by (cases "micro s") (simp_all add: run_micro_Nil run_micro_Cons)
qed


lemma run_Cons: "run (x # xs) s = run xs (step x s)"
  by (simp add: run_def)

lemma run_Nil [simp]: "run [] s = s"
  by (simp add: run_def)

lemmas engine_defs =
  constructor_def startBatchTimer_def startBatchTimer_db_def setInterval_def clearInterval_def
  new_promise_def settle_def resolve_def reject_def await_def
  commit_def commit_db_def tx_oncomplete_def tx_onfail_def
  open_onerror_def open_onsuccess_def
  throw_def push_def get_call_def set_call_def delete_call_def
  close_call_def close_batchTimer_def close_commit_def close_db_def
  destroy_call_def destroy_close_def destroy_db_def
  request_onsuccess_def request_onerror_def
  step_def run_def run_micro.simps

lemmas example_defs =
  ex_new_def ex_ready_def ex_queued_def ex_batch_def ex_answered_def ex_pending_def
  ex_failed_def ex_closed_def ex_inflight_def ex_bubbled_def ex_destroying_def

lemma promises_settle:
  "promises (settle p r s) q = (if q = p \<and> promises s p = Pending then r else promises s q)"
  by (simp add: settle_def)

lemma settle_fields [simp]:
  "actions (settle p r s) = actions s"
  "closed (settle p r s) = closed s"
  "batchPromise (settle p r s) = batchPromise s"
  "resolveBatch (settle p r s) = resolveBatch s"
  "rejectBatch (settle p r s) = rejectBatch s"
  "batchTimer (settle p r s) = batchTimer s"
  "batchInterval (settle p r s) = batchInterval s"
  "db (settle p r s) = db s"
  "nextp (settle p r s) = nextp s"
  "intervals (settle p r s) = intervals s"
  "next_timer (settle p r s) = next_timer s"
  "idb_name (settle p r s) = idb_name s"
  "idb_exists (settle p r s) = idb_exists s"
  "idb_opening (settle p r s) = idb_opening s"
  "idb_conn_closed (settle p r s) = idb_conn_closed s"
  "idb_data (settle p r s) = idb_data s"
  "idb_view (settle p r s) = idb_view s"
  "idb_txs (settle p r s) = idb_txs s"
  "idb_erasing (settle p r s) = idb_erasing s"
  by (simp_all add: settle_def)

lemma settle_tasks:
  "set (micro (settle p r s)) \<union> set (waiters (settle p r s)) = set (micro s) \<union> set (waiters s)"
  by (auto simp: settle_def)

lemma no_waiters_fresh:
  assumes "\<forall>w\<in>set ws. fst w < (n::nat)" and "n \<le> p"
  shows "filter (\<lambda>w. fst w = p) ws = []" and "filter (\<lambda>w. fst w \<noteq> p) ws = ws"
  using assms by (induction ws) auto

lemma get_promises_append [simp]: "get_promises (xs @ ys) = get_promises xs @ get_promises ys"
  by (induction xs rule: get_promises.induct) auto

lemma issue_requests_append [simp]:
  "issue_requests (xs @ ys) = issue_requests xs @ issue_requests ys"
  by (induction xs rule: issue_requests.induct) auto

lemma commit_empty:
  assumes "actions s = Some []"
  shows "commit s = (nextp s, resolve (nextp s) Undefined (snd (new_promise s)))"
  using assms by (simp add: commit_def new_promise_def)

lemma commit_nonempty:
  assumes "actions s = Some (a # as)"
  shows "commit s =
    (nextp s,
     await (db s) (Commit_db (nextp s) (a # as) (resolveBatch s) (rejectBatch s))
       (s\<lparr>actions := Some [],
          promises := (promises s)(nextp s := Pending, Suc (nextp s) := Pending),
          nextp := Suc (Suc (nextp s)),
          batchPromise := Suc (nextp s), resolveBatch := Suc (nextp s),
          rejectBatch := Suc (nextp s)\<rparr>))"
  using assms by (simp add: commit_def new_promise_def)

lemma throw_closed:
  "promises (snd (throw e s)) (nextp s) = Rejected e"
  "fst (throw e s) = nextp s"
  "actions (snd (throw e s)) = actions s"
  "idb_txs (snd (throw e s)) = idb_txs s"
  "closed (snd (throw e s)) = closed s"
  "set (micro (snd (throw e s))) \<union> set (waiters (snd (throw e s))) = set (micro s) \<union> set (waiters s)"
  "p \<noteq> nextp s \<Longrightarrow> promises (snd (throw e s)) p = promises s p"
  by (simp_all add: throw_def new_promise_def reject_def promises_settle settle_tasks)

lemma closed_calls:
  assumes "closed s"
  shows "promises (snd (get_call k s)) (fst (get_call k s)) = Rejected ClosedError
       \<and> actions (snd (get_call k s)) = actions s
       \<and> idb_txs (snd (get_call k s)) = idb_txs s
       \<and> promises (snd (set_call k v s)) (fst (set_call k v s)) = Rejected ClosedError
       \<and> actions (snd (set_call k v s)) = actions s
       \<and> idb_txs (snd (set_call k v s)) = idb_txs s
       \<and> promises (snd (delete_call k s)) (fst (delete_call k s)) = Rejected ClosedError
       \<and> actions (snd (delete_call k s)) = actions s
       \<and> idb_txs (snd (delete_call k s)) = idb_txs s"
  using assms by (simp add: get_call_def set_call_def delete_call_def throw_closed)

subsection \<open>What is kept\<close>

lemma keeps_refl [simp]: "keeps s s"
  by (simp add: keeps_def)

lemma keeps_trans: "keeps s s' \<Longrightarrow> keeps s' s'' \<Longrightarrow> keeps s s''"
  by (auto simp: keeps_def)

lemma keeps_settle: "keeps s (settle p r s)"
  by (simp add: keeps_def settle_def)

lemma keeps_await: "keeps s (await p k s)"
  by (simp add: keeps_def await_def)

lemma keeps_commit: "keeps s (snd (commit s))"
  by (auto simp: keeps_def commit_def new_promise_def await_def resolve_def reject_def settle_def
      Let_def split: option.split list.split)

lemma keeps_clearInterval: "keeps s (clearInterval v s)"
  by (cases v) (simp_all add: keeps_def clearInterval_def)

lemma keeps_resume: "keeps s (resume k r s)"
proof (cases k)
  case (StartBatchTimer_db tp)
  have "keeps s (resolve tp (TimerId t) s2)"
    if "commit s = (cp, s1)" "setInterval d s1 = (t, s2)" for cp s1 d t s2
    using keeps_commit [of s] that
    by (auto simp: keeps_def setInterval_def resolve_def settle_def)
  then show ?thesis using StartBatchTimer_db
    by (cases r) (auto simp: startBatchTimer_db_def reject_def keeps_settle split: prod.split)
next
  case (Commit_db cp as rb jb)
  then show ?thesis
    by (cases r) (auto simp: commit_db_def reject_def settle_def keeps_def)
next
  case (Close_batchTimer clp)
  have "keeps s (await (fst (commit (clearInterval v s))) (Close_commit clp)
          (snd (commit (clearInterval v s))))" for v
    using keeps_clearInterval [of s v] keeps_commit [of "clearInterval v s"] keeps_await keeps_trans
    by blast
  then show ?thesis using Close_batchTimer
    by (cases r) (auto simp: close_batchTimer_def reject_def keeps_settle split_beta Let_def)
next
  case (Close_commit clp)
  then show ?thesis
    by (cases r) (auto simp: close_commit_def reject_def keeps_settle keeps_await)
next
  case (Close_db clp)
  then show ?thesis
    by (cases r) (auto simp: close_db_def reject_def keeps_def resolve_def settle_def)
next
  case (Destroy_close dp)
  then show ?thesis
    by (cases r) (auto simp: destroy_close_def reject_def keeps_settle keeps_await)
next
  case (Destroy_db dp)
  then show ?thesis
    by (cases r) (auto simp: destroy_db_def reject_def settle_def keeps_def split: jsval.split)
qed

lemma keeps_run_micro: "keeps s (run_micro s)"
proof (induction s rule: run_micro.induct)
  case (1 s)
  show ?case
  proof (cases "micro s")
    case Nil
    then show ?thesis by (simp add: run_micro_Nil)
  next
    case (Cons w ws)
    have "keeps s (s\<lparr>micro := ws\<rparr>)" by (simp add: keeps_def)
    moreover have "keeps (s\<lparr>micro := ws\<rparr>) (resume (snd w) (promises s (fst w)) (s\<lparr>micro := ws\<rparr>))"
      by (rule keeps_resume)
    moreover have "keeps (resume (snd w) (promises s (fst w)) (s\<lparr>micro := ws\<rparr>))
        (run_micro (resume (snd w) (promises s (fst w)) (s\<lparr>micro := ws\<rparr>)))"
      using "1.IH" Cons by simp
    ultimately show ?thesis
      using Cons by (simp add: run_micro_Cons) (blast intro: keeps_trans)
  qed
qed

subsection \<open>Well-formedness is an invariant\<close>

lemma wf_settle: "wf s \<Longrightarrow> wf (settle p r s)"
  by (auto simp: wf_def settle_def)

lemma wf_await: "wf s \<Longrightarrow> p < nextp s \<Longrightarrow> wf (await p k s)"
  by (auto simp: wf_def await_def)

lemma wf_commit: "wf s \<Longrightarrow> wf (snd (commit s)) \<and> fst (commit s) < nextp (snd (commit s))"
  by (auto simp: wf_def commit_def new_promise_def await_def resolve_def reject_def settle_def
      Let_def less_Suc_eq split: option.split list.split)

lemma wf_clearInterval: "wf s \<Longrightarrow> wf (clearInterval v s)"
  by (cases v) (simp_all add: wf_def clearInterval_def)

lemma wf_resume: "wf s \<Longrightarrow> wf (resume k r s)"
proof (cases k)
  case (StartBatchTimer_db tp)
  assume w: "wf s"
  have "wf (resolve tp (TimerId t) s2)"
    if "commit s = (cp, s1)" "setInterval d s1 = (t, s2)" for cp s1 d t s2
    using wf_commit [OF w] that
    by (fastforce simp: wf_def setInterval_def resolve_def settle_def)
  then show ?thesis using StartBatchTimer_db w
    by (cases r) (auto simp: startBatchTimer_db_def reject_def wf_settle split: prod.split)
next
  case (Commit_db cp as rb jb)
  assume w: "wf s"
  then show ?thesis using Commit_db
    by (cases r) (auto simp: commit_db_def reject_def settle_def wf_def)
next
  case (Close_batchTimer clp)
  assume w: "wf s"
  have "wf (await (fst (commit (clearInterval v s))) (Close_commit clp)
          (snd (commit (clearInterval v s))))" for v
    using wf_commit [OF wf_clearInterval [OF w, of v]] wf_await by blast
  then show ?thesis using Close_batchTimer w
    by (cases r) (auto simp: close_batchTimer_def reject_def wf_settle split_beta Let_def)
next
  case (Close_commit clp)
  assume w: "wf s"
  then have "db s < nextp s" by (simp add: wf_def)
  then show ?thesis using Close_commit w
    by (cases r) (auto simp: close_commit_def reject_def wf_settle wf_await)
next
  case (Close_db clp)
  assume w: "wf s"
  then show ?thesis using Close_db
    by (cases r) (auto simp: close_db_def reject_def wf_def resolve_def settle_def)
next
  case (Destroy_close dp)
  assume w: "wf s"
  then have "db s < nextp s" by (simp add: wf_def)
  then show ?thesis using Destroy_close w
    by (cases r) (auto simp: destroy_close_def reject_def wf_settle wf_await)
next
  case (Destroy_db dp)
  assume w: "wf s"
  then show ?thesis using Destroy_db
    by (cases r) (auto simp: destroy_db_def reject_def settle_def wf_def split: jsval.split)
qed

lemma wf_run_micro: "wf s \<Longrightarrow> wf (run_micro s)"
proof (induction s rule: run_micro.induct)
  case (1 s)
  show ?case
  proof (cases "micro s")
    case Nil
    then show ?thesis using "1.prems" by (simp add: run_micro_Nil)
  next
    case (Cons w ws)
    have "wf (s\<lparr>micro := ws\<rparr>)" using "1.prems" Cons by (simp add: wf_def)
    then have "wf (resume (snd w) (promises s (fst w)) (s\<lparr>micro := ws\<rparr>))"
      by (rule wf_resume)
    then show ?thesis using "1.IH" Cons by (simp add: run_micro_Cons)
  qed
qed

lemma wf_do_call: "wf s \<Longrightarrow> wf (do_call c s)"
  by (cases c)
     (auto simp: wf_def get_call_def set_call_def delete_call_def close_call_def destroy_call_def
       throw_def push_def new_promise_def await_def reject_def settle_def Let_def less_Suc_eq
       split: option.split)

lemma wf_reject_actions: "wf s \<Longrightarrow> wf (reject_actions e as s)"
  by (induction e as s rule: reject_actions.induct) (simp_all add: reject_def wf_settle)

lemma wf_handle: "wf s \<Longrightarrow> wf (handle ev s)"
proof (cases ev)
  case (Calls cs)
  assume "wf s"
  then have "wf (fold do_call cs s)"
    by (induction cs arbitrary: s) (simp_all add: wf_do_call)
  then show ?thesis using Calls by simp
next
  case (OpenError e)
  assume w: "wf s"
  have a: "wf (reject_actions e as (s\<lparr>idb_opening := False, closed := True\<rparr>))" for as
    by (rule wf_reject_actions) (use w in \<open>simp add: wf_def\<close>)
  have b: "wf (x\<lparr>actions := None\<rparr>)" if "wf x" for x :: "('a, 'b) idbkv"
    using that by (simp add: wf_def)
  have c: "wf (s\<lparr>idb_opening := False, closed := True\<rparr>)"
    using w by (simp add: wf_def)
  show ?thesis using OpenError w a b c
    by (auto simp: open_onerror_def Let_def reject_def wf_settle split: option.split)
next
  case (Tick t)
  assume "wf s"
  then show ?thesis using Tick wf_commit [of s] by simp
qed (auto simp: wf_def open_onsuccess_def resolve_def reject_def settle_def request_onsuccess_def
      request_onerror_def tx_oncomplete_def tx_onfail_def
      split: list.split request.split option.split)

lemma wf_step: "wf s \<Longrightarrow> wf (step ev s)"
  by (simp add: step_def wf_handle wf_run_micro)

lemma wf_constructor: "wf (constructor dbName opt existing)"
  by (simp add: wf_def constructor_def startBatchTimer_def new_promise_def await_def)

lemma wf_run: "wf s \<Longrightarrow> wf (run es s)"
  by (induction es arbitrary: s) (simp_all add: run_Cons wf_step)

text \<open>
  Every state the engine reaches between two tasks is well-formed and has an empty
  microtask queue.
\<close>

lemma reachable_wf:
  "wf (run es (constructor dbName opt existing)) \<and> micro (run es (constructor dbName opt existing)) = []"
proof -
  have "micro (run es s) = []" if "micro s = []" for s :: "('a, 'b) idbkv"
    using that by (induction es arbitrary: s) (simp_all add: run_Cons step_def)
  moreover have "micro (constructor dbName opt existing :: ('a, 'b) idbkv) = []"
    by (simp add: constructor_def startBatchTimer_def new_promise_def await_def)
  ultimately show ?thesis by (simp add: wf_run wf_constructor)
qed

subsection \<open>Answered requests\<close>




subsection \<open>Stability\<close>

lemma stable_refl [simp]: "stable s s"
  by (simp add: stable_def)

lemma stable_trans [trans]: "stable s s' \<Longrightarrow> stable s' s'' \<Longrightarrow> stable s s''"
  by (auto simp: stable_def)

lemma keeps_stable: "keeps s s' \<Longrightarrow> stable s s'"
  by (simp add: keeps_def stable_def)

lemma stable_settle: "stable s (settle p r s)"
  by (simp add: stable_def settle_def)

lemma stable_reject_actions: "stable s (reject_actions e as s)"
proof (induction e as s rule: reject_actions.induct)
  case (2 e k p as s)
  have "stable s (reject p e s)" by (simp add: reject_def stable_settle)
  then show ?case using 2 by (auto intro: stable_trans)
qed simp_all

lemma stable_do_call: "stable s (do_call c s)"
  by (cases c)
     (auto simp: stable_def get_call_def set_call_def delete_call_def close_call_def
       destroy_call_def throw_def push_def new_promise_def await_def reject_def settle_def Let_def
       split: option.split)

lemma stable_handle: "stable s (handle ev s)"
proof (cases ev)
  case (Calls cs)
  have "stable s (fold do_call cs s)"
  proof (induction cs arbitrary: s)
    case Nil
    then show ?case by simp
  next
    case (Cons c cs)
    show ?case using stable_do_call [of s c] Cons [of "do_call c s"]
      by (auto intro: stable_trans)
  qed
  then show ?thesis using Calls by simp
next
  case (OpenError e)
  have "stable s (open_onerror e (s\<lparr>idb_opening := False\<rparr>))"
  proof (cases "actions s")
    case None
    then show ?thesis by (simp add: open_onerror_def stable_def)
  next
    case (Some as)
    define s0 where "s0 = s\<lparr>idb_opening := False, closed := True\<rparr>"
    define s1 where "s1 = reject_actions e as s0"
    define s2 where "s2 = reject (rejectBatch s1) e s1"
    define s3 where "s3 = s2\<lparr>actions := None\<rparr>"
    have "stable s s0" by (simp add: s0_def stable_def)
    also have "stable s0 s1" unfolding s1_def by (rule stable_reject_actions)
    also have "stable s1 s2" unfolding s2_def reject_def by (rule stable_settle)
    also have "stable s2 s3" by (simp add: s3_def stable_def)
    also have "stable s3 (reject (db s3) e s3)" unfolding reject_def by (rule stable_settle)
    finally have "stable s (reject (db s3) e s3)" .
    moreover have "open_onerror e (s\<lparr>idb_opening := False\<rparr>) = reject (db s3) e s3"
      using Some by (simp add: open_onerror_def Let_def s0_def s1_def s2_def s3_def)
    ultimately show ?thesis by simp
  qed
  then show ?thesis using OpenError by simp
next
  case (Tick t)
  then show ?thesis using keeps_commit [of s] by (simp add: keeps_stable)
qed (auto simp: stable_def open_onsuccess_def resolve_def reject_def settle_def request_onsuccess_def
      request_onerror_def tx_oncomplete_def tx_onfail_def
      split: list.split request.split option.split)

lemma stable_step: "stable s (step ev s)"
  using stable_handle [of s ev] keeps_run_micro [of "handle ev s"]
  by (auto simp: step_def intro: stable_trans keeps_stable)

lemma stable_run: "stable s (run es s)"
proof (induction es arbitrary: s)
  case Nil
  then show ?case by simp
next
  case (Cons ev es)
  show ?case using stable_step [of s ev] Cons [of "step ev s"]
    by (auto simp: run_Cons intro: stable_trans)
qed

lemma micro_run: "micro s = [] \<Longrightarrow> micro (run es s) = []"
  by (induction es arbitrary: s) (simp_all add: run_Cons step_def)

subsection \<open>A failed open request\<close>

lemma reject_actions_idle:
  assumes "\<forall>p\<in>set (get_promises as). \<forall>w\<in>set (waiters s). fst w \<noteq> p"
  shows "waiters (reject_actions e as s) = waiters s" "micro (reject_actions e as s) = micro s"
  using assms
  by (induction e as s rule: reject_actions.induct)
     (auto simp: reject_def settle_def filter_empty_conv filter_id_conv)

lemma reject_actions_fields [simp]:
  "closed (reject_actions e as s) = closed s"
  "actions (reject_actions e as s) = actions s"
  "db (reject_actions e as s) = db s"
  "batchTimer (reject_actions e as s) = batchTimer s"
  "rejectBatch (reject_actions e as s) = rejectBatch s"
  "batchPromise (reject_actions e as s) = batchPromise s"
  "nextp (reject_actions e as s) = nextp s"
  "idb_conn_closed (reject_actions e as s) = idb_conn_closed s"
  "idb_erasing (reject_actions e as s) = idb_erasing s"
  by (induction e as s rule: reject_actions.induct) (simp_all add: reject_def)

lemma promises_reject_actions:
  "promises (reject_actions e as s) p =
     (if p \<in> set (get_promises as) \<and> promises s p = Pending then Rejected e else promises s p)"
  by (induction e as s rule: reject_actions.induct) (auto simp: reject_def promises_settle)

lemma failed_open_rejects_timer:
  assumes c: "connecting s"
  shows "promises (step (OpenError e) s) (batchTimer s) = Rejected e"
    and "promises (step (OpenError e) s) (db s) = Rejected e"
    and "batchTimer (step (OpenError e) s) = batchTimer s"
proof -
  obtain as where a: "actions s = Some as" using c by (auto simp: connecting_def split: option.splits)
  let ?tp = "batchTimer s"
  let ?s0 = "s\<lparr>idb_opening := False, closed := True\<rparr>"
  let ?s1 = "reject_actions e as ?s0"
  have nw: "\<forall>p\<in>set (get_promises as). \<forall>w\<in>set (waiters ?s0). fst w \<noteq> p"
    using c a by (auto simp: connecting_def)
  have w1: "waiters ?s1 = waiters s" "micro ?s1 = []"
    using reject_actions_idle [OF nw, of e] c by (simp_all add: connecting_def)
  have wb: "filter (\<lambda>w. fst w = batchPromise s) (waiters s) = []"
    "filter (\<lambda>w. fst w \<noteq> batchPromise s) (waiters s) = waiters s"
    using c by (auto simp: connecting_def filter_empty_conv filter_id_conv)
  have pd: "promises ?s1 (db s) = Pending" "promises ?s1 ?tp = Pending"
    using c a by (auto simp: promises_reject_actions connecting_def)
  define h where "h = handle (OpenError e) s"
  have h: "h = reject (db s) e ((reject (batchPromise s) e ?s1)\<lparr>actions := None\<rparr>)"
    using c a by (simp add: h_def connecting_def open_onerror_def Let_def wf_def reject_def)
  have hm: "micro h = [(db s, StartBatchTimer_db ?tp)]"
    and hp: "promises h (db s) = Rejected e" "promises h ?tp = Pending"
    and hf: "batchTimer h = ?tp" "nextp h = nextp s" "db h = db s"
    using c pd w1 wb unfolding h
    by (auto simp: reject_def settle_def connecting_def)
  define r where "r = resume (StartBatchTimer_db ?tp) (Rejected e) (h\<lparr>micro := []\<rparr>)"
  have r: "run_micro h = run_micro r"
    using hm hp by (simp add: run_micro_Cons r_def)
  have rp: "promises r ?tp = Rejected e" "promises r (db s) = Rejected e" "nextp r = nextp s"
    "batchTimer r = ?tp"
    using hp hf c by (simp_all add: r_def startBatchTimer_db_def reject_def promises_settle connecting_def)
  have k: "keeps r (run_micro r)" by (rule keeps_run_micro)
  have lt: "?tp < nextp s" "db s < nextp s" using c by (simp_all add: connecting_def wf_def)
  have st: "step (OpenError e) s = run_micro r"
    by (simp only: step_def h_def [symmetric] r)
  show "promises (step (OpenError e) s) (batchTimer s) = Rejected e"
    using k rp lt unfolding st by (simp add: keeps_def)
  show "promises (step (OpenError e) s) (db s) = Rejected e"
    using k rp lt unfolding st by (simp add: keeps_def)
  show "batchTimer (step (OpenError e) s) = batchTimer s"
    using k rp unfolding st by (simp add: keeps_def)
qed

lemma connecting_constructor: "connecting (constructor dbName opt existing)"
  by (simp add: connecting_def wf_def constructor_def startBatchTimer_def new_promise_def await_def)

lemma connecting_do_call:
  assumes c: "connecting s"
  shows "connecting (do_call c' s)"
proof -
  obtain as where a: "actions s = Some as"
    using c by (auto simp: connecting_def split: option.splits)
  have f: "filter (\<lambda>w. fst w = p) (waiters s) = []" "filter (\<lambda>w. fst w \<noteq> p) (waiters s) = waiters s"
    if "nextp s \<le> p" for p
    using no_waiters_fresh [of "waiters s" "nextp s" p] c that by (simp_all add: connecting_def wf_def)
  have g: "p < nextp s" if "p \<in> set (get_promises as)" for p
    using c a that by (auto simp: connecting_def)
  show ?thesis
  proof (cases c')
    case (CGet k)
    then show ?thesis using c a f [of "nextp s"] g
      by (fastforce simp: connecting_def wf_def get_call_def throw_def push_def new_promise_def
          reject_def settle_def less_Suc_eq)
  next
    case (CSet k v)
    then show ?thesis using c a f [of "nextp s"] g
      by (fastforce simp: connecting_def wf_def set_call_def throw_def push_def new_promise_def
          reject_def settle_def less_Suc_eq)
  next
    case (CDelete k)
    then show ?thesis using c a f [of "nextp s"] g
      by (fastforce simp: connecting_def wf_def delete_call_def throw_def push_def new_promise_def
          reject_def settle_def less_Suc_eq)
  next
    case CClose
    then show ?thesis using c a g
      by (fastforce simp: connecting_def wf_def close_call_def new_promise_def await_def less_Suc_eq)
  next
    case CDestroy
    then show ?thesis using c a g
      by (fastforce simp: connecting_def wf_def destroy_call_def close_call_def new_promise_def
          await_def less_Suc_eq)
  qed
qed

lemma connecting_step:
  assumes c: "connecting s" and "ev \<noteq> OpenSuccess" and "\<forall>e. ev \<noteq> OpenError e"
  shows "connecting (step ev s)"
proof -
  have "connecting (handle ev s)"
  proof (cases ev)
    case (Calls cs)
    have "connecting (fold do_call cs s)"
      using c by (induction cs arbitrary: s) (simp_all add: connecting_do_call)
    then show ?thesis using Calls by simp
  next
    case UpgradeNeeded
    then show ?thesis using c by (auto simp: connecting_def wf_def split: option.splits)
  qed (use assms in \<open>simp_all add: connecting_def\<close>)
  moreover have "micro (handle ev s) = []" using calculation by (simp add: connecting_def)
  ultimately show ?thesis by (simp add: step_def run_micro_Nil)
qed

lemma connecting_run:
  assumes "connecting s" and "OpenSuccess \<notin> set es" and "\<forall>e. OpenError e \<notin> set es"
  shows "connecting (run es s)"
  using assms
proof (induction es arbitrary: s)
  case Nil
  then show ?case by simp
next
  case (Cons ev es)
  have "connecting (step ev s)"
    using Cons.prems by (intro connecting_step) auto
  then show ?case using Cons by (simp add: run_Cons)
qed

lemma closed_engine_after_failed_timer:
  assumes q: "micro s = []"
    and w: "\<forall>w\<in>set (waiters s). fst w < nextp s"
    and t: "batchTimer s < nextp s"
    and f: "promises s (batchTimer s) = Rejected e"
  shows "promises (run_micro (snd (close_call s))) (fst (close_call s)) = Rejected e
       \<and> idb_conn_closed (run_micro (snd (close_call s))) = idb_conn_closed s
       \<and> intervals (run_micro (snd (close_call s))) = intervals s
       \<and> promises (run_micro (snd (destroy_call s))) (fst (destroy_call s)) = Rejected e
       \<and> idb_erasing (run_micro (snd (destroy_call s))) = idb_erasing s
       \<and> idb_conn_closed (run_micro (snd (destroy_call s))) = idb_conn_closed s"
proof -
  have n: "batchTimer s \<noteq> nextp s" "batchTimer s \<noteq> Suc (nextp s)" using t by auto
  have w1: "filter (\<lambda>w. fst w = nextp s) (waiters s) = []"
    using no_waiters_fresh(1) [OF w, of "nextp s"] by simp
  have w2: "filter (\<lambda>w. fst w = Suc (nextp s)) (waiters s) = []"
    using no_waiters_fresh(1) [OF w, of "Suc (nextp s)"] by simp
  have w3: "filter (\<lambda>w. fst w \<noteq> Suc (nextp s)) (waiters s) = waiters s"
    using no_waiters_fresh(2) [OF w, of "Suc (nextp s)"] by simp
  have c: "run_micro (snd (close_call s)) =
      s\<lparr>promises := (promises s)(nextp s := Rejected e), nextp := Suc (nextp s), closed := True,
        micro := [], waiters := filter (\<lambda>w. fst w \<noteq> nextp s) (waiters s)\<rparr>"
    using q f n w1
    by (simp add: close_call_def new_promise_def await_def run_micro_Cons run_micro_Nil
        close_batchTimer_def reject_def settle_def)
  have d: "run_micro (snd (destroy_call s)) =
      s\<lparr>promises := (promises s)(nextp s := Rejected e, Suc (nextp s) := Rejected e),
        nextp := Suc (Suc (nextp s)), closed := True,
        micro := [], waiters := filter (\<lambda>w. fst w \<noteq> nextp s) (waiters s)\<rparr>"
    using q f n w1 w2 w3
    by (simp add: destroy_call_def close_call_def new_promise_def await_def run_micro_Cons
        run_micro_Nil close_batchTimer_def destroy_close_def reject_def settle_def fun_upd_twist)
  show ?thesis
    by (simp add: c d) (simp add: close_call_def destroy_call_def new_promise_def)
qed

lemma actions_None_commit: "actions s = None \<Longrightarrow> actions (snd (commit s)) = None"
  by (simp add: commit_def new_promise_def reject_def)

lemma actions_None_resume: "actions s = None \<Longrightarrow> actions (resume k r s) = None"
proof (cases k)
  case (StartBatchTimer_db tp)
  assume "actions s = None"
  then show ?thesis using StartBatchTimer_db actions_None_commit [of s]
    by (cases r)
       (auto simp: startBatchTimer_db_def setInterval_def resolve_def reject_def split_beta)
next
  case (Close_batchTimer clp)
  assume a: "actions s = None"
  have "actions (clearInterval v s) = None" for v
    using a by (cases v) (simp_all add: clearInterval_def)
  then have "actions (snd (commit (clearInterval v s))) = None" for v
    by (rule actions_None_commit)
  then show ?thesis using Close_batchTimer a
    by (cases r) (auto simp: close_batchTimer_def await_def reject_def split_beta Let_def)
qed (cases r; auto simp: commit_db_def close_commit_def close_db_def destroy_close_def
       destroy_db_def reject_def resolve_def await_def split: jsval.split)+

lemma actions_None_run_micro: "actions s = None \<Longrightarrow> actions (run_micro s) = None"
proof (induction s rule: run_micro.induct)
  case (1 s)
  show ?case
  proof (cases "micro s")
    case Nil
    then show ?thesis using "1.prems" by (simp add: run_micro_Nil)
  next
    case (Cons w ws)
    have "actions (resume (snd w) (promises s (fst w)) (s\<lparr>micro := ws\<rparr>)) = None"
      by (rule actions_None_resume) (simp add: "1.prems")
    then show ?thesis using "1.IH" Cons by (simp add: run_micro_Cons)
  qed
qed

lemma actions_None_do_call: "actions s = None \<Longrightarrow> actions (do_call c s) = None"
  by (cases c)
     (auto simp: get_call_def set_call_def delete_call_def close_call_def destroy_call_def
       throw_def push_def new_promise_def await_def reject_def Let_def)

lemma actions_None_reject_actions: "actions (reject_actions e as s) = actions s"
  by (induction e as s rule: reject_actions.induct) (simp_all add: reject_def)

lemma actions_None_handle: "actions s = None \<Longrightarrow> actions (handle ev s) = None"
proof (cases ev)
  case (Calls cs)
  assume "actions s = None"
  then have "actions (fold do_call cs s) = None"
    by (induction cs arbitrary: s) (simp_all add: actions_None_do_call)
  then show ?thesis using Calls by simp
next
  case (Tick t)
  assume "actions s = None"
  then show ?thesis using Tick by (simp add: actions_None_commit)
qed (auto simp: open_onsuccess_def open_onerror_def resolve_def reject_def request_onsuccess_def
      request_onerror_def tx_oncomplete_def tx_onfail_def
      split: list.split request.split option.split)

lemma actions_None_run: "actions s = None \<Longrightarrow> actions (run es s) = None"
  by (induction es arbitrary: s)
     (simp_all add: run_Cons step_def actions_None_handle actions_None_run_micro)

lemma open_onerror_result:
  assumes "actions s = Some as" and "rejectBatch s = batchPromise s"
  shows "closed (open_onerror e s)" "actions (open_onerror e s) = None"
    "nextp (open_onerror e s) = nextp s"
    "promises s p = Pending \<Longrightarrow> p \<in> set (get_promises as) \<or> p = batchPromise s \<or> p = db s \<Longrightarrow>
       promises (open_onerror e s) p = Rejected e"
  using assms
  by (auto simp: open_onerror_def Let_def reject_def promises_settle promises_reject_actions)

subsection \<open>The scheduler invariant\<close>

lemma tasks_settle [simp]: "tasks (settle p r s) = tasks s"
  by (auto simp: tasks_def settle_def)

lemma tasks_await [simp]: "tasks (await p k s) = insert (p, k) (tasks s)"
  by (auto simp: tasks_def await_def)

lemma await_fields [simp]:
  "promises (await p k s) = promises s" "db (await p k s) = db s"
  "intervals (await p k s) = intervals s" "nextp (await p k s) = nextp s"
  by (simp_all add: await_def)

lemma new_promise_fields [simp]:
  "fst (new_promise s) = nextp s" "actions (snd (new_promise s)) = actions s"
  "nextp (snd (new_promise s)) = Suc (nextp s)" "batchTimer (snd (new_promise s)) = batchTimer s"
  "db (snd (new_promise s)) = db s" "closed (snd (new_promise s)) = closed s"
  "batchPromise (snd (new_promise s)) = batchPromise s"
  by (simp_all add: new_promise_def)



lemma scheduler_ok_frame:
  assumes "scheduler_ok s" and "wf s'" and "tasks s' = tasks s" and "db s' = db s"
    and "intervals s' = intervals s" and "promises s' (db s) = promises s (db s)"
  shows "scheduler_ok s'"
  using assms by (simp add: scheduler_ok_def)

















subsection \<open>Transactions\<close>




subsection \<open>The answers of the store\<close>



subsection \<open>A call of close on an engine at rest\<close>




subsection \<open>The engine while it closes\<close>





















subsection \<open>A call of destroy on an engine at rest\<close>







section \<open>The queue and its commit\<close>

text \<open>
  C7. For every engine state with an empty pending queue, \<^verbatim>\<open>commit()\<close> returns at once:
  its promise is fulfilled in the state the call returns, no transaction is opened and no
  continuation is left behind, and the queue, the batch outcome promise with its two
  functions, the closed flag and every promise that existed before are as they were.
\<close>

theorem commit_empty_queue_noop:
  assumes "actions s = Some []"
  shows "promises (snd (commit s)) (fst (commit s)) = Fulfilled Undefined
       \<and> idb_txs (snd (commit s)) = idb_txs s
       \<and> set (micro (snd (commit s))) \<union> set (waiters (snd (commit s)))
           = set (micro s) \<union> set (waiters s)
       \<and> actions (snd (commit s)) = actions s
       \<and> batchPromise (snd (commit s)) = batchPromise s
       \<and> resolveBatch (snd (commit s)) = resolveBatch s
       \<and> rejectBatch (snd (commit s)) = rejectBatch s
       \<and> closed (snd (commit s)) = closed s
       \<and> (\<forall>p. p \<noteq> fst (commit s) \<longrightarrow> promises (snd (commit s)) p = promises s p)
       \<and> fst (commit s) = nextp s"
  using assms
  by (simp add: commit_empty resolve_def promises_settle settle_tasks) (simp add: new_promise_def)

theorem commit_empty_queue_noop_witness:
  "actions ex_ready = Some []
   \<and> promises (snd (commit ex_ready)) (fst (commit ex_ready)) = Fulfilled Undefined
   \<and> idb_txs (snd (commit ex_ready)) = idb_txs ex_ready
   \<and> actions (snd (commit ex_ready)) = actions ex_ready
   \<and> batchPromise (snd (commit ex_ready)) = batchPromise ex_ready
   \<and> closed (snd (commit ex_ready)) = closed ex_ready"
proof -
  have h: "actions ex_ready = Some []"
    by (simp add: example_defs engine_defs)
  show ?thesis using h commit_empty_queue_noop [OF h] by metis
qed

text \<open>
  C2. Every commit of a non-empty queue does the whole swap in the part of
  \<^verbatim>\<open>_commit\<close> that runs before its first \<^verbatim>\<open>await\<close>: in the state that part returns,
  the queue is a fresh empty one, the batch outcome promise is a new pending promise with
  its own two functions, no transaction exists yet, and the snapshot of the old queue sits
  with the old functions in the one continuation the call has left behind. A set, delete
  or get made after the swap gets the new batch promise and lands in the new queue; the
  continuations, and so the snapshot of the batch that is committing, are untouched by it.
\<close>

theorem commit_swaps_queue_and_batch_promise:
  assumes q: "actions s = Some as" and ne: "as \<noteq> []" and b: "batchPromise s < nextp s"
  shows "actions (snd (commit s)) = Some []
       \<and> batchPromise (snd (commit s)) \<noteq> batchPromise s
       \<and> promises (snd (commit s)) (batchPromise (snd (commit s))) = Pending
       \<and> resolveBatch (snd (commit s)) = batchPromise (snd (commit s))
       \<and> rejectBatch (snd (commit s)) = batchPromise (snd (commit s))
       \<and> idb_txs (snd (commit s)) = idb_txs s
       \<and> (micro (snd (commit s)) @ waiters (snd (commit s)) =
            micro s @ waiters s @ [(db s, Commit_db (fst (commit s)) as (resolveBatch s) (rejectBatch s))]
          \<or> micro (snd (commit s)) @ waiters (snd (commit s)) =
            micro s @ [(db s, Commit_db (fst (commit s)) as (resolveBatch s) (rejectBatch s))] @ waiters s)
       \<and> (\<not> closed s \<longrightarrow>
            fst (set_call k v (snd (commit s))) = batchPromise (snd (commit s))
          \<and> actions (snd (set_call k v (snd (commit s)))) = Some [ASet k v]
          \<and> fst (delete_call k (snd (commit s))) = batchPromise (snd (commit s))
          \<and> actions (snd (delete_call k (snd (commit s)))) = Some [ADelete k]
          \<and> actions (snd (get_call k (snd (commit s))))
              = Some [AGet k (fst (get_call k (snd (commit s))))]
          \<and> micro (snd (set_call k v (snd (commit s)))) = micro (snd (commit s))
          \<and> waiters (snd (set_call k v (snd (commit s)))) = waiters (snd (commit s))
          \<and> micro (snd (delete_call k (snd (commit s)))) = micro (snd (commit s))
          \<and> waiters (snd (delete_call k (snd (commit s)))) = waiters (snd (commit s))
          \<and> micro (snd (get_call k (snd (commit s)))) = micro (snd (commit s))
          \<and> waiters (snd (get_call k (snd (commit s)))) = waiters (snd (commit s)))"
proof -
  obtain a as' where as: "as = a # as'" using ne by (cases as) auto
  show ?thesis using q b unfolding as
    by (simp add: commit_nonempty await_def set_call_def delete_call_def get_call_def push_def
        new_promise_def)
qed

theorem commit_swaps_queue_and_batch_promise_witness:
  "actions ex_queued = Some [ASet ''a'' 1, AGet ''a'' 4]
   \<and> batchPromise ex_queued < nextp ex_queued \<and> \<not> closed ex_queued
   \<and> actions (snd (commit ex_queued)) = Some []
   \<and> batchPromise (snd (commit ex_queued)) \<noteq> batchPromise ex_queued
   \<and> idb_txs (snd (commit ex_queued)) = idb_txs ex_queued
   \<and> fst (set_call ''b'' 2 (snd (commit ex_queued))) = batchPromise (snd (commit ex_queued))
   \<and> actions (snd (set_call ''b'' 2 (snd (commit ex_queued)))) = Some [ASet ''b'' 2]"
proof -
  have h: "actions ex_queued = Some [ASet ''a'' 1, AGet ''a'' 4]"
    "[ASet ''a'' 1, AGet ''a'' 4] \<noteq> ([] :: (string, nat) action list)"
    "batchPromise ex_queued < nextp ex_queued"
    by (simp_all add: example_defs engine_defs)
  have c: "\<not> closed ex_queued"
    by (simp add: example_defs engine_defs)
  show ?thesis
    using h(1,3) c commit_swaps_queue_and_batch_promise [OF h, of "''b''" 2] by simp
qed

section \<open>A closed engine\<close>

text \<open>
  C3. For every engine with \<^verbatim>\<open>closed = true\<close>, each of get, set and delete fails with the
  closed error and leaves the pending queue and the transactions as they were. The
  failure is made by the call itself, for set as for the other two: the promise the call
  returns is rejected in the state the call returns, before any microtask, timer tick or
  transaction.
\<close>

theorem closed_engine_rejects_calls:
  assumes "closed s"
  shows "promises (snd (get_call k s)) (fst (get_call k s)) = Rejected ClosedError
       \<and> actions (snd (get_call k s)) = actions s
       \<and> idb_txs (snd (get_call k s)) = idb_txs s
       \<and> promises (snd (set_call k v s)) (fst (set_call k v s)) = Rejected ClosedError
       \<and> actions (snd (set_call k v s)) = actions s
       \<and> idb_txs (snd (set_call k v s)) = idb_txs s
       \<and> promises (snd (delete_call k s)) (fst (delete_call k s)) = Rejected ClosedError
       \<and> actions (snd (delete_call k s)) = actions s
       \<and> idb_txs (snd (delete_call k s)) = idb_txs s"
  using assms by (rule closed_calls)

theorem closed_engine_rejects_calls_witness:
  "closed ex_closed
   \<and> promises (snd (set_call ''a'' 1 ex_closed)) (fst (set_call ''a'' 1 ex_closed))
       = Rejected ClosedError
   \<and> actions (snd (set_call ''a'' 1 ex_closed)) = actions ex_closed
   \<and> promises (snd (get_call ''a'' ex_closed)) (fst (get_call ''a'' ex_closed))
       = Rejected ClosedError
   \<and> promises (snd (delete_call ''a'' ex_closed)) (fst (delete_call ''a'' ex_closed))
       = Rejected ClosedError"
proof -
  have h: "closed ex_closed"
    by (simp add: example_defs engine_defs)
  show ?thesis using h closed_engine_rejects_calls [OF h, of "''a''" 1] by simp
qed

section \<open>Order inside a batch\<close>



section \<open>A store that fails to open\<close>

text \<open>
  C6. If the store fails to open while the engine is still connecting, then after that task
  the engine is closed, the promise of every get enqueued so far, the current batch outcome
  promise (which every set and delete enqueued so far has received) and the connection
  promise are rejected with the connection error, the queue is gone, and at any later time
  a get, set or delete is rejected with the closed error and enqueues nothing.
\<close>

theorem open_failure_closes_and_rejects:
  assumes c: "connecting s" and a: "actions s = Some as"
  shows "closed (step (OpenError e) s)
       \<and> actions (step (OpenError e) s) = None
       \<and> (\<forall>p\<in>set (get_promises as). promises (step (OpenError e) s) p = Rejected e)
       \<and> promises (step (OpenError e) s) (batchPromise s) = Rejected e
       \<and> promises (step (OpenError e) s) (db s) = Rejected e
       \<and> closed (run es (step (OpenError e) s))
       \<and> promises (snd (get_call k (run es (step (OpenError e) s))))
           (fst (get_call k (run es (step (OpenError e) s)))) = Rejected ClosedError
       \<and> promises (snd (set_call k v (run es (step (OpenError e) s))))
           (fst (set_call k v (run es (step (OpenError e) s)))) = Rejected ClosedError
       \<and> promises (snd (delete_call k (run es (step (OpenError e) s))))
           (fst (delete_call k (run es (step (OpenError e) s)))) = Rejected ClosedError
       \<and> actions (snd (get_call k (run es (step (OpenError e) s)))) = None
       \<and> actions (snd (set_call k v (run es (step (OpenError e) s)))) = None
       \<and> actions (snd (delete_call k (run es (step (OpenError e) s)))) = None"
proof -
  define h where "h = handle (OpenError e) s"
  define s1 where "s1 = step (OpenError e) s"
  define u where "u = run es s1"
  have h: "h = open_onerror e (s\<lparr>idb_opening := False\<rparr>)"
    using c by (simp add: h_def connecting_def)
  have rb: "rejectBatch s = batchPromise s" using c by (simp add: connecting_def wf_def)
  have hc: "closed h" and ha: "actions h = None" and hn: "nextp h = nextp s"
    unfolding h using a rb by (simp_all add: open_onerror_result [where as = as])
  have hp: "promises h p = Rejected e"
    if "p \<in> set (get_promises as) \<or> p = batchPromise s \<or> p = db s" for p
  proof -
    have "promises s p = Pending" using that c a by (auto simp: connecting_def)
    then show ?thesis unfolding h using that a rb
      by (intro open_onerror_result(4) [where as = as]) simp_all
  qed
  have lt: "p < nextp h"
    if "p \<in> set (get_promises as) \<or> p = batchPromise s \<or> p = db s" for p
    using that c a hn by (auto simp: connecting_def wf_def)
  have k: "keeps h s1" unfolding s1_def step_def h_def by (rule keeps_run_micro)
  have sp: "promises s1 p = Rejected e"
    if "p \<in> set (get_promises as) \<or> p = batchPromise s \<or> p = db s" for p
    using k hp [OF that] lt [OF that] by (simp add: keeps_def)
  have c1: "closed s1" using k hc by (simp add: keeps_def)
  have a1: "actions s1 = None"
    unfolding s1_def step_def h_def [symmetric] using ha by (rule actions_None_run_micro)
  have cu: "closed u" using stable_run [of s1 es] c1 by (simp add: u_def stable_def)
  have au: "actions u = None" unfolding u_def using a1 by (rule actions_None_run)
  have "closed s1 \<and> actions s1 = None
       \<and> (\<forall>p\<in>set (get_promises as). promises s1 p = Rejected e)
       \<and> promises s1 (batchPromise s) = Rejected e
       \<and> promises s1 (db s) = Rejected e
       \<and> closed u
       \<and> promises (snd (get_call k u)) (fst (get_call k u)) = Rejected ClosedError
       \<and> promises (snd (set_call k v u)) (fst (set_call k v u)) = Rejected ClosedError
       \<and> promises (snd (delete_call k u)) (fst (delete_call k u)) = Rejected ClosedError
       \<and> actions (snd (get_call k u)) = None
       \<and> actions (snd (set_call k v u)) = None
       \<and> actions (snd (delete_call k u)) = None"
    using c1 a1 sp cu au closed_calls [OF cu, of k v] by simp
  then show ?thesis unfolding u_def s1_def .
qed

theorem open_failure_closes_and_rejects_witness:
  "connecting ex_pending \<and> actions ex_pending = Some [ASet ''a'' 1, AGet ''a'' 3]
   \<and> closed ex_failed
   \<and> promises ex_failed 3 = Rejected (StoreError 7)
   \<and> promises ex_failed (batchPromise ex_pending) = Rejected (StoreError 7)
   \<and> promises (snd (set_call ''b'' 2 ex_failed)) (fst (set_call ''b'' 2 ex_failed))
       = Rejected ClosedError"
proof -
  have c: "connecting ex_pending"
    by (simp add: connecting_def wf_def example_defs engine_defs)
  have a: "actions ex_pending = Some [ASet ''a'' 1, AGet ''a'' 3]"
    by (simp add: example_defs engine_defs)
  have f: "ex_failed = step (OpenError (StoreError 7)) ex_pending"
    by (simp add: ex_failed_def run_def)
  show ?thesis
    using c a open_failure_closes_and_rejects [OF c a, of "StoreError 7" "[]" "''b''" 2]
    unfolding f by simp
qed

text \<open>
  C10. For an engine whose open request failed while it was connecting, a
  \<^verbatim>\<open>close()\<close> made at any later time rejects with the open error and leaves the
  connection as it is, and a \<^verbatim>\<open>destroy()\<close> rejects with the open error as well and
  asks the store to erase nothing.
\<close>

theorem close_and_destroy_reject_after_failed_open:
  assumes c: "connecting s0"
  shows "promises (step (Calls [CClose]) (run es (step (OpenError e) s0)))
           (fst (close_call (run es (step (OpenError e) s0)))) = Rejected e
       \<and> idb_conn_closed (step (Calls [CClose]) (run es (step (OpenError e) s0)))
           = idb_conn_closed (run es (step (OpenError e) s0))
       \<and> promises (step (Calls [CDestroy]) (run es (step (OpenError e) s0)))
           (fst (destroy_call (run es (step (OpenError e) s0)))) = Rejected e
       \<and> idb_erasing (step (Calls [CDestroy]) (run es (step (OpenError e) s0)))
           = idb_erasing (run es (step (OpenError e) s0))
       \<and> idb_conn_closed (step (Calls [CDestroy]) (run es (step (OpenError e) s0)))
           = idb_conn_closed (run es (step (OpenError e) s0))"
proof -
  define s1 where "s1 = step (OpenError e) s0"
  define s where "s = run es s1"
  have w0: "wf s0" "batchTimer s0 < nextp s0" using c by (simp_all add: connecting_def wf_def)
  have t1: "promises s1 (batchTimer s0) = Rejected e" "batchTimer s1 = batchTimer s0"
    unfolding s1_def using failed_open_rejects_timer [OF c] by simp_all
  have n1: "batchTimer s0 < nextp s1"
    using stable_step [of s0 "OpenError e"] w0 by (simp add: s1_def stable_def)
  have st: "stable s1 s" unfolding s_def by (rule stable_run)
  have wf: "wf s" unfolding s_def s1_def using w0 by (simp add: wf_run wf_step)
  have m: "micro s = []" unfolding s_def s1_def by (rule micro_run) (simp add: step_def)
  have t: "promises s (batchTimer s) = Rejected e"
    using st t1 n1 by (simp add: stable_def)
  have "promises (run_micro (snd (close_call s))) (fst (close_call s)) = Rejected e
       \<and> idb_conn_closed (run_micro (snd (close_call s))) = idb_conn_closed s
       \<and> intervals (run_micro (snd (close_call s))) = intervals s
       \<and> promises (run_micro (snd (destroy_call s))) (fst (destroy_call s)) = Rejected e
       \<and> idb_erasing (run_micro (snd (destroy_call s))) = idb_erasing s
       \<and> idb_conn_closed (run_micro (snd (destroy_call s))) = idb_conn_closed s"
    using wf m t by (intro closed_engine_after_failed_timer) (simp_all add: wf_def)
  then have "promises (step (Calls [CClose]) s) (fst (close_call s)) = Rejected e
       \<and> idb_conn_closed (step (Calls [CClose]) s) = idb_conn_closed s
       \<and> promises (step (Calls [CDestroy]) s) (fst (destroy_call s)) = Rejected e
       \<and> idb_erasing (step (Calls [CDestroy]) s) = idb_erasing s
       \<and> idb_conn_closed (step (Calls [CDestroy]) s) = idb_conn_closed s"
    by (simp add: step_def)
  then show ?thesis unfolding s_def s1_def .
qed

theorem close_and_destroy_reject_after_failed_open_witness:
  "connecting ex_pending
   \<and> promises (step (Calls [CClose]) ex_failed) (fst (close_call ex_failed))
       = Rejected (StoreError 7)
   \<and> promises (step (Calls [CDestroy]) ex_failed) (fst (destroy_call ex_failed))
       = Rejected (StoreError 7)
   \<and> idb_erasing (step (Calls [CDestroy]) ex_failed) = idb_erasing ex_failed"
proof -
  have c: "connecting ex_pending"
    by (simp add: connecting_def wf_def example_defs engine_defs)
  have f: "ex_failed = run [] (step (OpenError (StoreError 7)) ex_pending)"
    by (simp add: ex_failed_def run_def)
  show ?thesis
    using c close_and_destroy_reject_after_failed_open [OF c, of "[]" "StoreError 7"]
    unfolding f by simp
qed

section \<open>The batch scheduler\<close>



section \<open>The outcome of a batch\<close>



section \<open>Closing\<close>




section \<open>Destroying\<close>



end
